theory Spec2Isabelle
  imports Main
begin

section \<open>AnimationManager: one-shot activation on viewport entry\<close>

text \<open>
  The inline style properties that \<open>AnimationManager\<close> writes. A property that was never
  written holds the empty string, as \<open>element.style.opacity\<close> does in the browser.
\<close>

record style =
  opacity :: string
  transform :: string
  transition :: string

text \<open>
  The capabilities \<open>AnimationManager.init\<close> queries:
  \<open>window.matchMedia('(prefers-reduced-motion: reduce)').matches\<close> and
  \<open>'IntersectionObserver' in window\<close>.
\<close>

record env =
  prefers_reduced_motion :: bool
  has_IntersectionObserver :: bool

text \<open>An \<open>IntersectionObserverEntry\<close>, as far as the callback reads it.\<close>

record 'e entry =
  target :: 'e
  isIntersecting :: bool

text \<open>
  The instance together with what it acts on: \<open>observer\<close> tells whether \<open>this.observer\<close> holds an
  \<open>IntersectionObserver\<close> (it is \<open>null\<close> otherwise), \<open>observed\<close> is the set of targets that
  observer currently watches, \<open>observe_calls\<close> counts the calls of \<open>observer.observe\<close>,
  \<open>styles\<close> is the inline style of every element and \<open>animate_log\<close> lists the calls of
  \<open>animateElement\<close> in order.
\<close>

record 'e animation_manager =
  observer :: bool
  observed :: "'e set"
  observe_calls :: nat
  animatedElements :: "'e set"
  styles :: "'e \<Rightarrow> style"
  animate_log :: "'e list"

definition AnimationManager_fields :: "('e \<Rightarrow> style) \<Rightarrow> 'e animation_manager" where
  "AnimationManager_fields st =
     \<lparr>observer = False, observed = {}, observe_calls = 0, animatedElements = {},
      styles = st, animate_log = []\<rparr>"

definition animateElement :: "'e \<Rightarrow> 'e animation_manager \<Rightarrow> 'e animation_manager" where
  "animateElement el s =
     s\<lparr>styles := (styles s)(el := (styles s el)
          \<lparr>opacity := ''1'', transform := ''translateY(0)'',
           transition := ''opacity 0.6s ease-out, transform 0.6s ease-out''\<rparr>),
       animate_log := animate_log s @ [el]\<rparr>"

definition unobserve :: "'e \<Rightarrow> 'e animation_manager \<Rightarrow> 'e animation_manager" where
  "unobserve el s = s\<lparr>observed := observed s - {el}\<rparr>"

definition observe :: "'e \<Rightarrow> 'e animation_manager \<Rightarrow> 'e animation_manager" where
  "observe el s = s\<lparr>observed := insert el (observed s), observe_calls := Suc (observe_calls s)\<rparr>"

text \<open>The body of the \<open>entries.forEach\<close> of the observer's callback, for one entry.\<close>

definition on_entry :: "'e entry \<Rightarrow> 'e animation_manager \<Rightarrow> 'e animation_manager" where
  "on_entry en s =
     (if isIntersecting en \<and> target en \<notin> animatedElements s
      then unobserve (target en)
             ((animateElement (target en) s)
                \<lparr>animatedElements := insert (target en) (animatedElements (animateElement (target en) s))\<rparr>)
      else s)"

definition intersection_callback ::
  "'e entry list \<Rightarrow> 'e animation_manager \<Rightarrow> 'e animation_manager" where
  "intersection_callback entries s = fold on_entry entries s"

definition setupObserver :: "'e animation_manager \<Rightarrow> 'e animation_manager" where
  "setupObserver s = s\<lparr>observer := True, observed := {}\<rparr>"

definition observeElement :: "'e \<Rightarrow> 'e animation_manager \<Rightarrow> 'e animation_manager" where
  "observeElement el s =
     observe el
       (s\<lparr>styles := (styles s)(el := (styles s el)
            \<lparr>opacity := ''0'', transform := ''translateY(30px)''\<rparr>)\<rparr>)"

definition observeElements :: "'e list \<Rightarrow> 'e animation_manager \<Rightarrow> 'e animation_manager" where
  "observeElements elementsToAnimate s = fold observeElement elementsToAnimate s"

definition fallbackElement :: "'e \<Rightarrow> 'e animation_manager \<Rightarrow> 'e animation_manager" where
  "fallbackElement el s =
     s\<lparr>styles := (styles s)(el := (styles s el)
          \<lparr>opacity := ''1'', transform := ''translateY(0)''\<rparr>)\<rparr>"

definition addFallbackAnimations :: "'e list \<Rightarrow> 'e animation_manager \<Rightarrow> 'e animation_manager" where
  "addFallbackAnimations elementsToAnimate s = fold fallbackElement elementsToAnimate s"

text \<open>
  \<open>init\<close>; \<open>elementsToAnimate\<close> is what
  \<open>document.querySelectorAll('.section, .service-item, .benefit-item, .experience-item')\<close>
  returns.
\<close>

definition AnimationManager_init ::
  "env \<Rightarrow> 'e list \<Rightarrow> 'e animation_manager \<Rightarrow> 'e animation_manager" where
  "AnimationManager_init ev elementsToAnimate s =
     (if prefers_reduced_motion ev then s
      else if \<not> has_IntersectionObserver ev then addFallbackAnimations elementsToAnimate s
      else observeElements elementsToAnimate (setupObserver s))"

text \<open>The constructor: the two field initialisations, then \<open>init\<close>.\<close>

definition AnimationManager_new ::
  "env \<Rightarrow> 'e list \<Rightarrow> ('e \<Rightarrow> style) \<Rightarrow> 'e animation_manager" where
  "AnimationManager_new ev elementsToAnimate st =
     AnimationManager_init ev elementsToAnimate (AnimationManager_fields st)"

text \<open>
  The browser delivers batches of entries to the callback of the observer, one batch per call.
  Without an observer there is no callback to call. The batches are arbitrary: nothing is
  assumed about which targets they name, how often, or in which order.
\<close>

definition notify :: "'e entry list list \<Rightarrow> 'e animation_manager \<Rightarrow> 'e animation_manager" where
  "notify batches s = (if observer s then fold intersection_callback batches s else s)"

text \<open>
  Example inputs: elements named by strings whose styles were never written, three settings
  of the capabilities, and two batches in which \<open>a\<close> is reported as intersecting three times.
\<close>

definition unset_styles :: "string \<Rightarrow> style" where
  "unset_styles = (\<lambda>_. \<lparr>opacity = [], transform = [], transition = []\<rparr>)"

definition motion_env :: env where
  "motion_env = \<lparr>prefers_reduced_motion = False, has_IntersectionObserver = True\<rparr>"

definition reduced_env :: env where
  "reduced_env = \<lparr>prefers_reduced_motion = True, has_IntersectionObserver = True\<rparr>"

definition legacy_env :: env where
  "legacy_env = \<lparr>prefers_reduced_motion = False, has_IntersectionObserver = False\<rparr>"

definition crossing_batches :: "string entry list list" where
  "crossing_batches =
     [[\<lparr>target = ''a'', isIntersecting = True\<rparr>, \<lparr>target = ''b'', isIntersecting = False\<rparr>],
      [\<lparr>target = ''a'', isIntersecting = True\<rparr>, \<lparr>target = ''a'', isIntersecting = True\<rparr>]]"

text \<open>What is true of the instance between any two entries.\<close>

definition once_inv :: "'e animation_manager \<Rightarrow> bool" where
  "once_inv s \<longleftrightarrow>
     distinct (animate_log s) \<and> set (animate_log s) = animatedElements s \<and>
     animatedElements s \<inter> observed s = {}"

section \<open>Rate limiters: debounce\<close>

text \<open>
  Both wrappers are driven by two kinds of events. \<open>Invoke args\<close> is a call of the wrapped
  function inside the running turn of the event loop. \<open>Advance d\<close> ends the running turn and
  lets \<open>d\<close> time units pass: every timer that is due by then runs, in the order of the due
  times. A timer callback never runs inside another turn, so a timer set with delay \<open>0\<close> runs
  at the next \<open>Advance\<close>, not at once. A turn takes no time, a timer runs exactly when it is
  due, and the wrapped \<open>func\<close> does not call the wrapper.
\<close>

datatype 'a event = Invoke 'a | Advance nat

text \<open>
  The closure of \<open>debounce\<close>: the variable \<open>timeout\<close> (\<open>None\<close> for \<open>undefined\<close> and \<open>null\<close>, the
  handle of a timer otherwise, which is a positive number and so truthy), the timers of the
  page that \<open>setTimeout\<close> created and that have neither run nor been cleared (handle, due
  time, and the \<open>args\<close> their \<open>later\<close> captured), and the calls of \<open>func\<close> made so far, each with
  its time and arguments.
\<close>

record 'a debounce_state =
  now :: nat
  next_handle :: nat
  timers :: "(nat \<times> nat \<times> 'a) list"
  timeout :: "nat option"
  calls :: "(nat \<times> 'a) list"

definition debounce_start :: "'a debounce_state" where
  "debounce_start = \<lparr>now = 0, next_handle = 1, timers = [], timeout = None, calls = []\<rparr>"

fun clearTimeout :: "nat option \<Rightarrow> (nat \<times> nat \<times> 'a) list \<Rightarrow> (nat \<times> nat \<times> 'a) list" where
  "clearTimeout None ts = ts"
| "clearTimeout (Some h) ts = filter (\<lambda>tm. fst tm \<noteq> h) ts"

text \<open>The function \<open>debounce(func, wait, immediate)\<close> returns.\<close>

definition executedFunction ::
  "nat \<Rightarrow> bool \<Rightarrow> 'a \<Rightarrow> 'a debounce_state \<Rightarrow> 'a debounce_state" where
  "executedFunction wait immediate args s =
     (let callNow = immediate \<and> timeout s = None;
          s1 = s\<lparr>timers := clearTimeout (timeout s) (timers s)\<rparr>;
          s2 = s1\<lparr>timers := timers s1 @ [(next_handle s1, now s1 + wait, args)],
                  timeout := Some (next_handle s1),
                  next_handle := Suc (next_handle s1)\<rparr>
      in if callNow then s2\<lparr>calls := calls s2 @ [(now s2, args)]\<rparr> else s2)"

text \<open>The timer callback \<open>later\<close> of the invocation that captured \<open>args\<close>.\<close>

definition later :: "bool \<Rightarrow> 'a \<Rightarrow> 'a debounce_state \<Rightarrow> 'a debounce_state" where
  "later immediate args s =
     (let s1 = s\<lparr>timeout := None\<rparr>
      in if \<not> immediate then s1\<lparr>calls := calls s1 @ [(now s1, args)]\<rparr> else s1)"

definition run_timer :: "bool \<Rightarrow> nat \<times> nat \<times> 'a \<Rightarrow> 'a debounce_state \<Rightarrow> 'a debounce_state" where
  "run_timer immediate tm s = later immediate (snd (snd tm)) (s\<lparr>now := fst (snd tm)\<rparr>)"

definition debounce_advance :: "bool \<Rightarrow> nat \<Rightarrow> 'a debounce_state \<Rightarrow> 'a debounce_state" where
  "debounce_advance immediate d s =
     (let t = now s + d;
          due = sort_key (\<lambda>tm. fst (snd tm)) (filter (\<lambda>tm. fst (snd tm) \<le> t) (timers s));
          s1 = s\<lparr>timers := filter (\<lambda>tm. \<not> fst (snd tm) \<le> t) (timers s)\<rparr>
      in (fold (run_timer immediate) due s1)\<lparr>now := t\<rparr>)"

fun debounce_step :: "nat \<Rightarrow> bool \<Rightarrow> 'a event \<Rightarrow> 'a debounce_state \<Rightarrow> 'a debounce_state" where
  "debounce_step wait immediate (Invoke args) s = executedFunction wait immediate args s"
| "debounce_step wait immediate (Advance d) s = debounce_advance immediate d s"

definition run_debounce :: "nat \<Rightarrow> bool \<Rightarrow> 'a event list \<Rightarrow> 'a debounce_state" where
  "run_debounce wait immediate evs = fold (debounce_step wait immediate) evs debounce_start"

text \<open>The invocations of a trace with their times, and the time at which the trace ends.\<close>

fun invocations :: "nat \<Rightarrow> 'a event list \<Rightarrow> (nat \<times> 'a) list" where
  "invocations t [] = []"
| "invocations t (Invoke a # es) = (t, a) # invocations t es"
| "invocations t (Advance d # es) = invocations (t + d) es"

fun end_time :: "nat \<Rightarrow> 'a event list \<Rightarrow> nat" where
  "end_time t [] = t"
| "end_time t (Invoke a # es) = end_time t es"
| "end_time t (Advance d # es) = end_time (t + d) es"

text \<open>
  What the specification says of debouncing, as a function of the timed invocations up to
  time \<open>T\<close>: an invocation at \<open>t\<close> leads to a call at \<open>t + w\<close>, with its own arguments, exactly
  when no other invocation follows before \<open>t + w\<close> and \<open>t + w\<close> has been reached.
\<close>

fun quiet_calls :: "nat \<Rightarrow> nat \<Rightarrow> (nat \<times> 'a) list \<Rightarrow> (nat \<times> 'a) list" where
  "quiet_calls w T [] = []"
| "quiet_calls w T [(t, a)] = (if t + w \<le> T then [(t + w, a)] else [])"
| "quiet_calls w T ((t, a) # (t', a') # r) =
     (if t + w \<le> t' then [(t + w, a)] else []) @ quiet_calls w T ((t', a') # r)"

text \<open>At most one timer is alive, and \<open>timeout\<close> holds its handle.\<close>

definition one_timer :: "'a debounce_state \<Rightarrow> bool" where
  "one_timer s \<longleftrightarrow>
     (timeout s = None \<and> timers s = []) \<or>
     (\<exists>h d a. timeout s = Some h \<and> timers s = [(h, d, a)])"

text \<open>
  The state after a trace that ends at time \<open>T\<close> and made the invocations \<open>invs\<close>: the calls made
  are those of \<open>quiet_calls\<close>, and a timer is alive exactly for a last invocation that is less
  than \<open>w\<close> old, due \<open>w\<close> after it and holding its arguments.
\<close>

definition trailing :: "nat \<Rightarrow> nat \<Rightarrow> (nat \<times> 'a) list \<Rightarrow> 'a debounce_state \<Rightarrow> bool" where
  "trailing w T invs s \<longleftrightarrow>
     now s = T \<and> one_timer s \<and> calls s = quiet_calls w T invs \<and>
     (invs = [] \<longrightarrow> timers s = []) \<and>
     (\<forall>r t a. invs = r @ [(t, a)] \<longrightarrow>
        (if t + w \<le> T then timers s = [] else \<exists>h. timers s = [(h, t + w, a)]))"

text \<open>
  With \<open>immediate\<close> set: any two real calls are at least \<open>w\<close> apart, none lies in the future, and
  the timer alive, if any, is due \<open>w\<close> or more after each of them.
\<close>

definition leading :: "nat \<Rightarrow> 'a debounce_state \<Rightarrow> bool" where
  "leading w s \<longleftrightarrow>
     one_timer s \<and> sorted_wrt (\<lambda>x y. fst x + w \<le> fst y) (calls s) \<and>
     (\<forall>c \<in> set (calls s). fst c \<le> now s \<and> (timers s = [] \<longrightarrow> fst c + w \<le> now s) \<and>
        (\<forall>h t a. timers s = [(h, t, a)] \<longrightarrow> fst c + w \<le> t))"

text \<open>
  Example traces: ten invocations 5 apart and then a quiet time of 100; invocations that keep a
  timer alive; one invocation whose timer has run.
\<close>

definition burst :: "nat event list" where
  "burst = [Invoke 11, Advance 5, Invoke 12, Advance 5, Invoke 13, Advance 5, Invoke 14,
            Advance 5, Invoke 15, Advance 5, Invoke 16, Advance 5, Invoke 17, Advance 5,
            Invoke 18, Advance 5, Invoke 19, Advance 5, Invoke 20, Advance 100]"

definition leading_trace :: "nat event list" where
  "leading_trace =
     [Invoke 11, Advance 30, Invoke 12, Advance 30, Invoke 13, Advance 100, Invoke 14]"

definition expired_trace :: "nat event list" where
  "expired_trace = [Invoke 11, Advance 100]"

section \<open>Rate limiters: throttle\<close>

text \<open>
  The closure of \<open>throttle(func, limit)\<close>: the variable \<open>inThrottle\<close> (\<open>undefined\<close> at first, which
  is falsy), the due times of the timers that will set it to \<open>false\<close>, and the calls of \<open>func\<close>
  made so far with their times and arguments, whether they returned or threw.
\<close>

record 'a throttle_state =
  clock :: nat
  resets :: "nat list"
  inThrottle :: bool
  fired :: "(nat \<times> 'a) list"

definition throttle_start :: "'a throttle_state" where
  "throttle_start = \<lparr>clock = 0, resets = [], inThrottle = False, fired = []\<rparr>"

text \<open>
  The function \<open>throttle(func, limit)\<close> returns. \<open>throws args\<close> tells whether \<open>func\<close> throws when it
  is called with \<open>args\<close>. The three statements of the guarded block run in the order of the
  source: \<open>func\<close> is called first, and when it throws, the exception leaves the function before
  \<open>inThrottle\<close> is set and before the timer is created.
\<close>

definition throttled ::
  "nat \<Rightarrow> ('a \<Rightarrow> bool) \<Rightarrow> 'a \<Rightarrow> 'a throttle_state \<Rightarrow> 'a throttle_state" where
  "throttled limit throws args s =
     (if \<not> inThrottle s
      then
        (let s1 = s\<lparr>fired := fired s @ [(clock s, args)]\<rparr>
         in if throws args then s1
            else
              (let s2 = s1\<lparr>inThrottle := True\<rparr>
               in s2\<lparr>resets := resets s2 @ [clock s2 + limit]\<rparr>))
      else s)"

definition run_reset :: "nat \<Rightarrow> 'a throttle_state \<Rightarrow> 'a throttle_state" where
  "run_reset due s = s\<lparr>clock := due, inThrottle := False\<rparr>"

definition throttle_advance :: "nat \<Rightarrow> 'a throttle_state \<Rightarrow> 'a throttle_state" where
  "throttle_advance d s =
     (let t = clock s + d;
          due = sort (filter (\<lambda>r. r \<le> t) (resets s));
          s1 = s\<lparr>resets := filter (\<lambda>r. \<not> r \<le> t) (resets s)\<rparr>
      in (fold run_reset due s1)\<lparr>clock := t\<rparr>)"

fun throttle_step ::
  "nat \<Rightarrow> ('a \<Rightarrow> bool) \<Rightarrow> 'a event \<Rightarrow> 'a throttle_state \<Rightarrow> 'a throttle_state" where
  "throttle_step limit throws (Invoke args) s = throttled limit throws args s"
| "throttle_step limit throws (Advance d) s = throttle_advance d s"

definition run_throttle ::
  "nat \<Rightarrow> ('a \<Rightarrow> bool) \<Rightarrow> 'a event list \<Rightarrow> 'a throttle_state" where
  "run_throttle limit throws evs = fold (throttle_step limit throws) evs throttle_start"

text \<open>
  What the specification says of throttling, as a function of the timed invocations: \<open>cool\<close> is
  the time of the last real call, if there was one. An invocation less than \<open>w\<close> after it is
  dropped; any other invocation is a real call, at its own time and with its own arguments.
\<close>

fun throttle_calls :: "nat \<Rightarrow> nat option \<Rightarrow> (nat \<times> 'a) list \<Rightarrow> (nat \<times> 'a) list" where
  "throttle_calls w cool [] = []"
| "throttle_calls w cool ((t, a) # r) =
     (if (case cool of None \<Rightarrow> False | Some c \<Rightarrow> t < c + w) then throttle_calls w cool r
      else (t, a) # throttle_calls w (Some t) r)"

text \<open>
  While \<open>inThrottle\<close> holds there is exactly one reset timer, set \<open>w\<close> after the call at \<open>c\<close> that
  started the cooldown; otherwise there is none.
\<close>

definition cooling :: "nat \<Rightarrow> 'a throttle_state \<Rightarrow> bool" where
  "cooling w s \<longleftrightarrow>
     (inThrottle s \<longrightarrow> (\<exists>c. resets s = [c + w] \<and> c \<le> clock s \<and> (0 < w \<longrightarrow> clock s < c + w))) \<and>
     (\<not> inThrottle s \<longrightarrow> resets s = [])"

text \<open>The time of the call that started the cooldown the state is in, if it is in one.\<close>

definition cool_of :: "nat \<Rightarrow> 'a throttle_state \<Rightarrow> nat option" where
  "cool_of w s = (if inThrottle s then Some (hd (resets s) - w) else None)"

text \<open>
  Example callbacks and traces: a callback that always returns and one that always throws;
  invocations 40 apart; two invocations 10 apart; one invocation followed by the end of its
  turn.
\<close>

definition returning :: "nat \<Rightarrow> bool" where
  "returning = (\<lambda>args. False)"

definition throwing :: "nat \<Rightarrow> bool" where
  "throwing = (\<lambda>args. True)"

definition steady :: "nat event list" where
  "steady = [Invoke 11, Advance 40, Invoke 12, Advance 40, Invoke 13, Advance 40, Invoke 14,
             Advance 40, Invoke 15]"

definition two_calls :: "nat event list" where
  "two_calls = [Invoke 11, Advance 10, Invoke 12]"


section \<open>Typewriter effect\<close>

text \<open>The rotating texts, as the source lists them.\<close>

definition subtitles :: "string list" where
  "subtitles =
     [''Building the future of web experiences'',
      ''Where innovation meets creativity'',
      ''Transforming ideas into reality'',
      ''Next-level digital solutions'']"

text \<open>The markup appended to every rendered prefix: \<open><span class="typewriter"></span>\<close>.\<close>

definition cursor_span :: string where
  "cursor_span = ''<span class='' @ [CHR 0x22] @ ''typewriter'' @ [CHR 0x22] @ ''></span>''"

text \<open>
  The three variables the function \<open>typeWriter\<close> closes over. \<open>charIndex\<close> is an integer: the
  decrement in the deleting branch is not guarded.
\<close>

record typewriter =
  subtitleIndex :: nat
  charIndex :: int
  isDeleting :: bool

text \<open>
  One run of \<open>typeWriter\<close>, for the list \<open>subs\<close> in the place of the constant \<open>subtitles\<close> that the
  function closes over. It returns without a trace when no \<open>.subtitle\<close> element exists, it
  throws when \<open>subtitles[subtitleIndex]\<close> is \<open>undefined\<close>, and otherwise it writes the element's
  \<open>innerHTML\<close>, updates the variables and schedules itself again after a delay.
\<close>

datatype outcome = NoSubtitle | Thrown | Scheduled string nat typewriter

text \<open>\<open>currentText.substring(0, n)\<close>: a negative \<open>n\<close> counts as \<open>0\<close>, a large one as the length.\<close>

definition substring0 :: "string \<Rightarrow> int \<Rightarrow> string" where
  "substring0 txt n = take (nat n) txt"

definition typeWriter :: "string list \<Rightarrow> bool \<Rightarrow> typewriter \<Rightarrow> outcome" where
  "typeWriter subs present s =
     (if \<not> present then NoSubtitle
      else if \<not> subtitleIndex s < length subs then Thrown
      else
        (let currentText = subs ! subtitleIndex s in
         if isDeleting s then
           (let html = substring0 currentText (charIndex s - 1) @ cursor_span;
                s1 = s\<lparr>charIndex := charIndex s - 1\<rparr>
            in if charIndex s1 = 0
               then Scheduled html 500
                      (s1\<lparr>isDeleting := False,
                          subtitleIndex := (subtitleIndex s1 + 1) mod length subs\<rparr>)
               else Scheduled html (if isDeleting s1 then 50 else 100) s1)
         else
           (let html = substring0 currentText (charIndex s + 1) @ cursor_span;
                s1 = s\<lparr>charIndex := charIndex s + 1\<rparr>
            in if charIndex s1 = int (length currentText)
               then Scheduled html 2000 (s1\<lparr>isDeleting := True\<rparr>)
               else Scheduled html (if isDeleting s1 then 50 else 100) s1)))"

text \<open>
  The variables after \<open>n\<close> scheduled runs in a row, with the element present at each of them;
  \<open>None\<close> when a run threw or returned without scheduling the next one.
\<close>

fun typeWriter_chain :: "nat \<Rightarrow> string list \<Rightarrow> typewriter \<Rightarrow> typewriter option" where
  "typeWriter_chain 0 subs s = Some s"
| "typeWriter_chain (Suc n) subs s =
     (case typeWriter subs True s of
        Scheduled html delay s' \<Rightarrow> typeWriter_chain n subs s'
      | _ \<Rightarrow> None)"

definition typewriter_start :: typewriter where
  "typewriter_start = \<lparr>subtitleIndex = 0, charIndex = 0, isDeleting = False\<rparr>"

definition typing_at :: "nat \<Rightarrow> nat \<Rightarrow> typewriter" where
  "typing_at i c = \<lparr>subtitleIndex = i, charIndex = int c, isDeleting = False\<rparr>"

definition deleting_at :: "nat \<Rightarrow> nat \<Rightarrow> typewriter" where
  "deleting_at i c = \<lparr>subtitleIndex = i, charIndex = int c, isDeleting = True\<rparr>"

text \<open>The number of runs of a full round over each text, and of all rounds together.\<close>

definition round_steps :: "string \<Rightarrow> nat" where
  "round_steps txt = 2 * length txt"

definition cycle_steps :: "string list \<Rightarrow> nat" where
  "cycle_steps subs = sum_list (map round_steps subs)"

text \<open>The cursor stays inside the current text.\<close>

definition in_text :: "string list \<Rightarrow> typewriter \<Rightarrow> bool" where
  "in_text subs s \<longleftrightarrow>
     subtitleIndex s < length subs \<and> 0 \<le> charIndex s \<and>
     charIndex s \<le> int (length (subs ! subtitleIndex s)) \<and>
     (isDeleting s \<longrightarrow> 1 \<le> charIndex s) \<and>
     (\<not> isDeleting s \<longrightarrow> charIndex s < int (length (subs ! subtitleIndex s)))"

section \<open>ReniLandingPage: the application object\<close>

text \<open>The six modules \<open>init\<close> constructs, each stored under its name in \<open>this.modules\<close>.\<close>

datatype page_module =
  errorManager | performanceMonitor | smoothScrollManager | animationManager |
  contactManager | accessibilityManager

text \<open>The order of the six assignments in \<open>init\<close>.\<close>

definition module_order :: "page_module list" where
  "module_order =
     [errorManager, performanceMonitor, smoothScrollManager, animationManager,
      contactManager, accessibilityManager]"

text \<open>What \<open>init\<close> writes to the console.\<close>

datatype console_line =
  InitializedSuccessfully | InitializationCompleted | FailedToInitialize page_module

text \<open>
  The instance, with the effects of \<open>init\<close> that outlive it: \<open>modules\<close> maps a name to the instance
  stored under it, instances being told apart by a number; \<open>constructed\<close> lists every constructor
  call that completed, in order, with the instance it made.
\<close>

record landing_page =
  modules :: "page_module \<rightharpoonup> nat"
  isInitialized :: bool
  constructed :: "(page_module \<times> nat) list"
  next_instance :: nat
  console :: "console_line list"

definition ReniLandingPage_new :: landing_page where
  "ReniLandingPage_new =
     \<lparr>modules = Map.empty, isInitialized = False, constructed = [], next_instance = 0,
      console = []\<rparr>"

text \<open>\<open>this.modules.m = new M()\<close> for a constructor that returns.\<close>

definition construct :: "page_module \<Rightarrow> landing_page \<Rightarrow> landing_page" where
  "construct m s =
     s\<lparr>modules := (modules s)(m \<mapsto> next_instance s),
       constructed := constructed s @ [(m, next_instance s)],
       next_instance := Suc (next_instance s)\<rparr>"

text \<open>
  The assignments of the \<open>try\<close> block, in order. \<open>throws m\<close> tells whether the constructor of \<open>m\<close>
  throws; the first one that does ends the block, and its name is returned with the state
  reached.
\<close>

fun construct_modules ::
  "(page_module \<Rightarrow> bool) \<Rightarrow> page_module list \<Rightarrow> landing_page \<Rightarrow> page_module option \<times> landing_page"
where
  "construct_modules throws [] s = (None, s)"
| "construct_modules throws (m # ms) s =
     (if throws m then (Some m, s) else construct_modules throws ms (construct m s))"

text \<open>
  \<open>init\<close>, from the point where the document is ready: the \<open>try\<close> block and its \<open>catch\<close>.
\<close>

definition ReniLandingPage_init :: "(page_module \<Rightarrow> bool) \<Rightarrow> landing_page \<Rightarrow> landing_page" where
  "ReniLandingPage_init throws s =
     (case construct_modules throws module_order s of
        (None, s') \<Rightarrow>
          s'\<lparr>isInitialized := True,
             console := console s' @ [InitializedSuccessfully, InitializationCompleted]\<rparr>
      | (Some m, s') \<Rightarrow> s'\<lparr>console := console s' @ [FailedToInitialize m]\<rparr>)"

definition getModule :: "page_module \<Rightarrow> landing_page \<Rightarrow> nat option" where
  "getModule name s = modules s name"

text \<open>\<open>destroy\<close>; none of the six modules has a \<open>destroy\<close> method to call.\<close>

definition destroy :: "landing_page \<Rightarrow> landing_page" where
  "destroy s = s\<lparr>modules := Map.empty, isInitialized := False\<rparr>"

text \<open>Example faults: no constructor throws; only that of \<open>PerformanceMonitor\<close> does.\<close>

definition no_fault :: "page_module \<Rightarrow> bool" where
  "no_fault = (\<lambda>m. False)"

definition monitor_fault :: "page_module \<Rightarrow> bool" where
  "monitor_fault = (\<lambda>m. m = performanceMonitor)"

section \<open>Pointer effects\<close>

text \<open>
  The handlers compute with the numbers of the host, which are IEEE doubles. Their arithmetic
  is not part of the source, so it is a parameter here: subtraction, multiplication and
  division on a type \<open>'n\<close> of numbers, and the value of a numeric literal given by its text. The
  same holds for the way a number is printed inside a template string.
\<close>

record 'n number_ops =
  num_sub :: "'n \<Rightarrow> 'n \<Rightarrow> 'n"
  num_mul :: "'n \<Rightarrow> 'n \<Rightarrow> 'n"
  num_div :: "'n \<Rightarrow> 'n \<Rightarrow> 'n"
  num_lit :: "string \<Rightarrow> 'n"

text \<open>
  What a handler leaves in \<open>element.style.transform\<close>: nothing yet (\<open>Unset\<close>), a fixed text, or
  one of the three template strings with the two numbers put into it:
  \<open>translate(..px, ..px) scale(1.05)\<close>, \<open>translate(..px, ..px)\<close>, and
  \<open>perspective(1000px) rotateX(..deg) rotateY(..deg) translateY(-5px) scale(1.02)\<close>.
  Whatever the numbers are, a template string differs from each of the fixed texts below.
\<close>

datatype 'n transform_value =
  Unset
  | Fixed string
  | TranslateScale 'n 'n
  | Translate 'n 'n
  | Tilt 'n 'n

text \<open>The coordinates of a mouse event, and a bounding rectangle.\<close>

record 'n mouse_event =
  clientX :: 'n
  clientY :: 'n

record 'n dom_rect =
  left :: 'n
  top' :: 'n
  width :: 'n
  height :: 'n

text \<open>
  The \<open>mousemove\<close> handler of a \<open>.hero-button\<close> (magnetic effect). It takes the capabilities of
  the page like every handler, and does not look at them.
\<close>

definition hero_button_mousemove ::
  "'n number_ops \<Rightarrow> env \<Rightarrow> 'n mouse_event \<Rightarrow> 'n dom_rect \<Rightarrow> 'n transform_value \<Rightarrow> 'n transform_value"
where
  "hero_button_mousemove ops ev e rect tr =
     (let x = num_sub ops (num_sub ops (clientX e) (left rect))
                (num_div ops (width rect) (num_lit ops ''2''));
          y = num_sub ops (num_sub ops (clientY e) (top' rect))
                (num_div ops (height rect) (num_lit ops ''2''))
      in TranslateScale (num_mul ops x (num_lit ops ''0.1'')) (num_mul ops y (num_lit ops ''0.1'')))"

definition hero_button_mouseleave :: "'n transform_value \<Rightarrow> 'n transform_value" where
  "hero_button_mouseleave tr = Fixed ''translate(0, 0) scale(1)''"

text \<open>
  The \<open>mousemove\<close> handler of the document (parallax), for a window of the given inner width
  and height: with a \<open>.hero-content\<close> element present it writes to its transform.
\<close>

definition document_mousemove ::
  "'n number_ops \<Rightarrow> env \<Rightarrow> 'n mouse_event \<Rightarrow> 'n \<Rightarrow> 'n \<Rightarrow> 'n transform_value option \<Rightarrow>
   'n transform_value option"
where
  "document_mousemove ops ev e innerWidth innerHeight heroContent =
     (let x = num_div ops (clientX e) innerWidth;
          y = num_div ops (clientY e) innerHeight
      in case heroContent of
           None \<Rightarrow> None
         | Some tr \<Rightarrow>
             Some (Translate
               (num_mul ops (num_sub ops x (num_lit ops ''0.5'')) (num_lit ops ''20''))
               (num_mul ops (num_sub ops y (num_lit ops ''0.5'')) (num_lit ops ''20''))))"

text \<open>The \<open>mousemove\<close> handler of a \<open>.service-item\<close> (3D tilt).\<close>

definition service_item_mousemove ::
  "'n number_ops \<Rightarrow> env \<Rightarrow> 'n mouse_event \<Rightarrow> 'n dom_rect \<Rightarrow> 'n transform_value \<Rightarrow> 'n transform_value"
where
  "service_item_mousemove ops ev e rect tr =
     (let x = num_sub ops (clientX e) (left rect);
          y = num_sub ops (clientY e) (top' rect);
          centerX = num_div ops (width rect) (num_lit ops ''2'');
          centerY = num_div ops (height rect) (num_lit ops ''2'');
          rotateX = num_div ops (num_sub ops y centerY) (num_lit ops ''20'');
          rotateY = num_div ops (num_sub ops centerX x) (num_lit ops ''20'')
      in Tilt rotateX rotateY)"

definition service_item_mouseleave :: "'n transform_value \<Rightarrow> 'n transform_value" where
  "service_item_mouseleave tr =
     Fixed ''perspective(1000px) rotateX(0) rotateY(0) translateY(0) scale(1)''"

text \<open>
  The \<open>mouseenter\<close> handler that \<open>ContactManager.addHoverEffects\<close> gives a \<open>.btn\<close>: the one hover
  effect of the file that asks for the reduced-motion preference.
\<close>

definition btn_mouseenter :: "env \<Rightarrow> 'n transform_value \<Rightarrow> 'n transform_value" where
  "btn_mouseenter ev tr =
     (if \<not> prefers_reduced_motion ev then Fixed ''translateY(-2px)'' else tr)"

section \<open>AnimationManager: one-shot activation on viewport entry: properties\<close>

subsection \<open>Activation happens at most once\<close>

lemma once_inv_on_entry: "once_inv s \<Longrightarrow> once_inv (on_entry en s)"
  by (auto simp: once_inv_def on_entry_def animateElement_def unobserve_def)

lemma once_inv_callback: "once_inv s \<Longrightarrow> once_inv (intersection_callback entries s)"
  unfolding intersection_callback_def
  by (induction entries arbitrary: s) (simp_all add: once_inv_on_entry)

lemma once_inv_batches: "once_inv s \<Longrightarrow> once_inv (fold intersection_callback batches s)"
  by (induction batches arbitrary: s) (simp_all add: once_inv_callback)

lemma once_inv_notify: "once_inv s \<Longrightarrow> once_inv (notify batches s)"
  by (simp add: notify_def once_inv_batches)

lemma observeElement_animated:
  "animatedElements (observeElement el s) = animatedElements s \<and>
   animate_log (observeElement el s) = animate_log s"
  by (simp add: observeElement_def observe_def)

lemma observeElements_animated:
  "animatedElements (observeElements els s) = animatedElements s \<and>
   animate_log (observeElements els s) = animate_log s"
  unfolding observeElements_def
  by (induction els arbitrary: s) (simp_all add: observeElement_animated)

lemma fallbackElement_animated:
  "animatedElements (fallbackElement el s) = animatedElements s \<and>
   animate_log (fallbackElement el s) = animate_log s \<and>
   observed (fallbackElement el s) = observed s \<and>
   observer (fallbackElement el s) = observer s \<and>
   observe_calls (fallbackElement el s) = observe_calls s"
  by (simp add: fallbackElement_def)

lemma addFallbackAnimations_animated:
  "animatedElements (addFallbackAnimations els s) = animatedElements s \<and>
   animate_log (addFallbackAnimations els s) = animate_log s \<and>
   observed (addFallbackAnimations els s) = observed s \<and>
   observer (addFallbackAnimations els s) = observer s \<and>
   observe_calls (addFallbackAnimations els s) = observe_calls s"
  unfolding addFallbackAnimations_def
  by (induction els arbitrary: s) (simp_all add: fallbackElement_animated)

lemma once_inv_new: "once_inv (AnimationManager_new ev els st)"
  by (simp add: once_inv_def AnimationManager_new_def AnimationManager_init_def
      AnimationManager_fields_def observeElements_animated addFallbackAnimations_animated
      setupObserver_def)

lemma distinct_count_le_1: "distinct xs \<Longrightarrow> count_list xs x \<le> 1"
  by (induction xs) auto

text \<open>
  C1. Whatever batches of entries the observer's callback receives after construction, and
  however often an element appears in them as intersecting, \<open>animateElement\<close> has been called at
  most once for each element, and an element for which it has been called is not observed any
  more.
\<close>

theorem animateElement_at_most_once:
  "count_list (animate_log (notify batches (AnimationManager_new ev els st))) el \<le> 1 \<and>
   (el \<in> set (animate_log (notify batches (AnimationManager_new ev els st))) \<longrightarrow>
      el \<notin> observed (notify batches (AnimationManager_new ev els st)))"
proof -
  have "once_inv (notify batches (AnimationManager_new ev els st))"
    by (rule once_inv_notify) (rule once_inv_new)
  then have d: "distinct (animate_log (notify batches (AnimationManager_new ev els st)))"
    and i: "set (animate_log (notify batches (AnimationManager_new ev els st))) \<inter>
         observed (notify batches (AnimationManager_new ev els st)) = {}"
    by (simp_all add: once_inv_def)
  from d have "count_list (animate_log (notify batches (AnimationManager_new ev els st))) el \<le> 1"
    by (rule distinct_count_le_1)
  moreover from i have
    "el \<in> set (animate_log (notify batches (AnimationManager_new ev els st))) \<longrightarrow>
     el \<notin> observed (notify batches (AnimationManager_new ev els st))"
    by blast
  ultimately show ?thesis by (rule conjI)
qed

lemma crossing_log:
  "animate_log (notify crossing_batches (AnimationManager_new motion_env [''a'', ''b''] unset_styles))
   = [''a'']"
  by (simp add: notify_def AnimationManager_new_def AnimationManager_init_def
      AnimationManager_fields_def observeElements_def observeElement_def observe_def
      setupObserver_def intersection_callback_def on_entry_def animateElement_def
      unobserve_def motion_env_def crossing_batches_def)

theorem animateElement_at_most_once_witness:
  "count_list (animate_log (notify crossing_batches
      (AnimationManager_new motion_env [''a'', ''b''] unset_styles))) ''a'' \<le> 1 \<and>
   ''a'' \<in> set (animate_log (notify crossing_batches
      (AnimationManager_new motion_env [''a'', ''b''] unset_styles))) \<and>
   ''a'' \<notin> observed (notify crossing_batches
      (AnimationManager_new motion_env [''a'', ''b''] unset_styles))"
  using animateElement_at_most_once
    [of crossing_batches motion_env "[''a'', ''b'']" unset_styles "''a''"]
  by (simp add: crossing_log)

subsection \<open>Construction without observation\<close>

lemma fallbackElement_styles:
  "styles (fallbackElement x s) el =
     (if el = x then (styles s el)\<lparr>opacity := ''1'', transform := ''translateY(0)''\<rparr>
      else styles s el)"
  by (simp add: fallbackElement_def)

lemma addFallbackAnimations_styles:
  "styles (addFallbackAnimations els s) el =
     (if el \<in> set els then (styles s el)\<lparr>opacity := ''1'', transform := ''translateY(0)''\<rparr>
      else styles s el)"
  unfolding addFallbackAnimations_def
  by (induction els arbitrary: s) (simp_all add: fallbackElement_styles)

text \<open>
  C6, as the code has it. With reduced motion requested, the constructor leaves the instance
  and every style as they were: no observer, no call of \<open>observe\<close>, no style written, so a target
  is neither hidden nor given the visible presentation. Without reduced motion and without
  \<open>IntersectionObserver\<close>, every target gets opacity \<open>1\<close> and transform \<open>translateY(0)\<close>, the other
  elements keep their style, and again there is no observer and no call of \<open>observe\<close>.
\<close>

theorem init_without_observer:
  "(prefers_reduced_motion ev \<longrightarrow>
      AnimationManager_new ev els st = AnimationManager_fields st) \<and>
   (\<not> prefers_reduced_motion ev \<and> \<not> has_IntersectionObserver ev \<longrightarrow>
      (\<forall>el \<in> set els.
         opacity (styles (AnimationManager_new ev els st) el) = ''1'' \<and>
         transform (styles (AnimationManager_new ev els st) el) = ''translateY(0)'') \<and>
      (\<forall>el. el \<notin> set els \<longrightarrow> styles (AnimationManager_new ev els st) el = st el) \<and>
      \<not> observer (AnimationManager_new ev els st) \<and>
      observed (AnimationManager_new ev els st) = {} \<and>
      observe_calls (AnimationManager_new ev els st) = 0 \<and>
      animate_log (AnimationManager_new ev els st) = [])"
  by (simp add: AnimationManager_new_def AnimationManager_init_def
      addFallbackAnimations_styles addFallbackAnimations_animated AnimationManager_fields_def)

theorem init_without_observer_witness:
  "AnimationManager_new reduced_env [''a'', ''b''] unset_styles = AnimationManager_fields unset_styles \<and>
   opacity (styles (AnimationManager_new legacy_env [''a'', ''b''] unset_styles) ''b'') = ''1'' \<and>
   \<not> observer (AnimationManager_new legacy_env [''a'', ''b''] unset_styles) \<and>
   observe_calls (AnimationManager_new legacy_env [''a'', ''b''] unset_styles) = 0"
  using init_without_observer [of reduced_env "[''a'', ''b'']" unset_styles]
    init_without_observer [of legacy_env "[''a'', ''b'']" unset_styles]
  by (simp add: reduced_env_def legacy_env_def)

text \<open>
  The claim as the specification states it fails: with reduced motion requested, a target whose
  opacity was never set does not receive the visible presentation.
\<close>

theorem reduced_motion_no_activation:
  "opacity (styles (AnimationManager_new reduced_env [''a'', ''b''] unset_styles) ''a'') \<noteq> ''1''"
  by (simp add: AnimationManager_new_def AnimationManager_init_def AnimationManager_fields_def
      reduced_env_def unset_styles_def)

section \<open>Rate limiters: debounce: properties\<close>

lemma one_timer_start: "one_timer debounce_start"
  by (simp add: one_timer_def debounce_start_def)

lemma executedFunction_timers:
  "one_timer s \<Longrightarrow>
   timers (executedFunction w imm a s) = [(next_handle s, now s + w, a)] \<and>
   timeout (executedFunction w imm a s) = Some (next_handle s) \<and>
   now (executedFunction w imm a s) = now s \<and>
   calls (executedFunction w imm a s) =
     (if imm \<and> timeout s = None then calls s @ [(now s, a)] else calls s)"
  by (auto simp: one_timer_def executedFunction_def Let_def)

lemma one_timer_executedFunction: "one_timer s \<Longrightarrow> one_timer (executedFunction w imm a s)"
  using executedFunction_timers [of s w imm a] by (simp add: one_timer_def)

lemma debounce_advance_empty:
  "timers s = [] \<Longrightarrow> debounce_advance imm d s = s\<lparr>now := now s + d\<rparr>"
  by (simp add: debounce_advance_def Let_def)

lemma debounce_advance_due:
  "timers s = [(h, t, a)] \<Longrightarrow> t \<le> now s + d \<Longrightarrow>
   debounce_advance imm d s =
     s\<lparr>timers := [], timeout := None,
       calls := (if imm then calls s else calls s @ [(t, a)]), now := now s + d\<rparr>"
  by (simp add: debounce_advance_def Let_def run_timer_def later_def)

lemma debounce_advance_not_due:
  "timers s = [(h, t, a)] \<Longrightarrow> \<not> t \<le> now s + d \<Longrightarrow>
   debounce_advance imm d s = s\<lparr>now := now s + d\<rparr>"
  by (simp add: debounce_advance_def Let_def)

lemma one_timer_advance: "one_timer s \<Longrightarrow> one_timer (debounce_advance imm d s)"
  unfolding one_timer_def
  by (elim disjE exE conjE)
     (simp add: debounce_advance_empty,
      rename_tac h t a, case_tac "t \<le> now s + d",
      simp_all add: debounce_advance_due debounce_advance_not_due)

lemma one_timer_step: "one_timer s \<Longrightarrow> one_timer (debounce_step w imm ev s)"
  by (cases ev) (simp_all add: one_timer_executedFunction one_timer_advance)

lemma one_timer_fold: "one_timer s \<Longrightarrow> one_timer (fold (debounce_step w imm) evs s)"
  by (induction evs arbitrary: s) (simp_all add: one_timer_step)

lemma one_timer_run: "one_timer (run_debounce w imm evs)"
  by (simp add: run_debounce_def one_timer_fold one_timer_start)

subsection \<open>Debounce, trailing edge\<close>

lemma quiet_calls_snoc:
  "quiet_calls w T (invs @ [(t, a)]) =
     quiet_calls w t invs @ (if t + w \<le> T then [(t + w, a)] else [])"
  by (induction w t invs rule: quiet_calls.induct) auto

lemma invocations_append:
  "invocations t (es @ es') = invocations t es @ invocations (end_time t es) es'"
  by (induction t es rule: invocations.induct) simp_all

lemma end_time_append: "end_time t (es @ es') = end_time (end_time t es) es'"
  by (induction t es rule: end_time.induct) simp_all

lemma trailing_start: "trailing w 0 [] debounce_start"
  by (simp add: trailing_def one_timer_start) (simp add: debounce_start_def)

lemma trailing_invoke:
  assumes w: "0 < w" and tr: "trailing w T invs s"
  shows "trailing w T (invs @ [(T, a)]) (executedFunction w False a s)"
proof -
  from tr have ot: "one_timer s" and n: "now s = T" and c: "calls s = quiet_calls w T invs"
    by (simp_all add: trailing_def)
  note ef = executedFunction_timers [OF ot, of w False a]
  have "calls (executedFunction w False a s) = quiet_calls w T (invs @ [(T, a)])"
    using ef c w by (simp add: quiet_calls_snoc)
  moreover have "one_timer (executedFunction w False a s)"
    using ot by (rule one_timer_executedFunction)
  ultimately show ?thesis
    using ef n w by (simp add: trailing_def)
qed

lemma trailing_advance:
  assumes tr: "trailing w T invs s"
  shows "trailing w (T + d) invs (debounce_advance False d s)"
proof (cases invs rule: rev_cases)
  case Nil
  with tr have "timers s = []" and "now s = T" and "calls s = []" and "one_timer s"
    by (simp_all add: trailing_def)
  then show ?thesis
    using Nil by (simp add: debounce_advance_empty trailing_def one_timer_def)
next
  case (snoc r x)
  obtain t a where x: "x = (t, a)" by (cases x)
  from tr have n: "now s = T" and ot: "one_timer s"
    and c: "calls s = quiet_calls w t r @ (if t + w \<le> T then [(t + w, a)] else [])"
    and tm: "if t + w \<le> T then timers s = [] else \<exists>h. timers s = [(h, t + w, a)]"
    by (simp_all add: trailing_def snoc x quiet_calls_snoc)
  show ?thesis
  proof (cases "t + w \<le> T")
    case True
    with tm have "timers s = []" by simp
    then show ?thesis
      using True n c ot
      by (simp add: debounce_advance_empty trailing_def snoc x quiet_calls_snoc one_timer_def)
  next
    case False
    with tm obtain h where h: "timers s = [(h, t + w, a)]" by auto
    show ?thesis
    proof (cases "t + w \<le> T + d")
      case True
      then have "t + w \<le> now s + d" using n by simp
      from debounce_advance_due [OF h this, of False] show ?thesis
        using True False n c
        by (simp add: trailing_def snoc x quiet_calls_snoc one_timer_def)
    next
      case nd: False
      then have "\<not> t + w \<le> now s + d" using n by simp
      from debounce_advance_not_due [OF h this, of False] show ?thesis
        using nd False n c h ot
        by (simp add: trailing_def snoc x quiet_calls_snoc one_timer_def)
    qed
  qed
qed

lemma trailing_run:
  "0 < w \<Longrightarrow> trailing w (end_time 0 evs) (invocations 0 evs) (run_debounce w False evs)"
proof (induction evs rule: rev_induct)
  case Nil
  show ?case by (simp add: run_debounce_def trailing_start)
next
  case (snoc e evs)
  then have tr: "trailing w (end_time 0 evs) (invocations 0 evs) (run_debounce w False evs)"
    by simp
  show ?case
  proof (cases e)
    case (Invoke a)
    with trailing_invoke [OF snoc.prems tr, of a] show ?thesis
      by (simp add: run_debounce_def invocations_append end_time_append)
  next
    case (Advance d)
    with trailing_advance [OF tr, of d] show ?thesis
      by (simp add: run_debounce_def invocations_append end_time_append)
  qed
qed

text \<open>
  C2. For a window \<open>w > 0\<close> and \<open>immediate\<close> unset: after any trace, the calls of the underlying
  callback are exactly those of \<open>quiet_calls\<close>, one for every invocation that no other
  invocation follows within \<open>w\<close>, made \<open>w\<close> after it and with its arguments; and an invocation
  made now calls nothing itself and leaves exactly one timer alive, its own, due \<open>w\<close> later:
  whatever was pending is cancelled.
\<close>

theorem debounce_trailing_edge:
  assumes "0 < w"
  shows "calls (run_debounce w False evs) = quiet_calls w (end_time 0 evs) (invocations 0 evs) \<and>
         now (run_debounce w False evs) = end_time 0 evs \<and>
         timers (executedFunction w False a (run_debounce w False evs)) =
           [(next_handle (run_debounce w False evs), end_time 0 evs + w, a)] \<and>
         calls (executedFunction w False a (run_debounce w False evs)) =
           calls (run_debounce w False evs)"
proof -
  have tr: "trailing w (end_time 0 evs) (invocations 0 evs) (run_debounce w False evs)"
    using assms by (rule trailing_run)
  then have n: "now (run_debounce w False evs) = end_time 0 evs"
    and c: "calls (run_debounce w False evs) = quiet_calls w (end_time 0 evs) (invocations 0 evs)"
    by (simp_all add: trailing_def)
  from executedFunction_timers [of "run_debounce w False evs" w False a, OF one_timer_run] n c
  show ?thesis by simp
qed

theorem debounce_trailing_edge_witness:
  "calls (run_debounce 100 False burst) = [(145, 20)] \<and>
   timers (executedFunction 100 False 21 (run_debounce 100 False burst)) =
     [(next_handle (run_debounce 100 False burst), 245, 21)]"
  using debounce_trailing_edge [of 100 burst 21]
  by (simp add: burst_def)

subsection \<open>Debounce, leading edge\<close>

lemma leading_start: "leading w debounce_start"
  by (simp add: leading_def one_timer_start) (simp add: debounce_start_def)

lemma leading_invoke:
  assumes "leading w s"
  shows "leading w (executedFunction w True a s)"
proof -
  from assms have ot: "one_timer s" by (simp add: leading_def)
  note ef = executedFunction_timers [OF ot, of w True a]
  have o': "one_timer (executedFunction w True a s)"
    using ot by (rule one_timer_executedFunction)
  show ?thesis
  proof (cases "timeout s = None")
    case True
    with ot have "timers s = []" by (auto simp: one_timer_def)
    with assms True ef o' show ?thesis
      by (auto simp: leading_def sorted_wrt_append)
  next
    case False
    with assms ef o' show ?thesis
      by (auto simp: leading_def)
  qed
qed

lemma leading_advance:
  assumes "leading w s"
  shows "leading w (debounce_advance True d s)"
proof -
  from assms have ot: "one_timer s" by (simp add: leading_def)
  then have "timers s = [] \<or> (\<exists>h t a. timers s = [(h, t, a)])"
    by (auto simp: one_timer_def)
  then consider "timers s = []"
    | h t a where "timers s = [(h, t, a)]" "t \<le> now s + d"
    | h t a where "timers s = [(h, t, a)]" "\<not> t \<le> now s + d"
    by blast
  then show ?thesis
  proof cases
    case 1
    with assms show ?thesis
      by (auto simp: debounce_advance_empty leading_def one_timer_def)
  next
    case 2
    from debounce_advance_due [OF 2, of True] assms 2 show ?thesis
      by (auto simp: leading_def one_timer_def)
  next
    case 3
    from debounce_advance_not_due [OF 3, of True] assms 3 show ?thesis
      by (auto simp: leading_def one_timer_def)
  qed
qed

lemma leading_run: "leading w (run_debounce w True evs)"
proof -
  have "leading w s \<Longrightarrow> leading w (fold (debounce_step w True) evs s)" for s
  proof (induction evs arbitrary: s)
    case Nil
    then show ?case by simp
  next
    case (Cons e evs)
    then show ?case
      by (cases e) (simp_all add: leading_invoke leading_advance)
  qed
  then show ?thesis
    by (simp add: run_debounce_def leading_start)
qed

lemma advance_immediate_calls:
  "one_timer s \<Longrightarrow> calls (debounce_advance True d s) = calls s"
  unfolding one_timer_def
  by (elim disjE exE conjE)
     (simp add: debounce_advance_empty,
      rename_tac h t a, case_tac "t \<le> now s + d",
      simp_all add: debounce_advance_due debounce_advance_not_due)

text \<open>
  C10. With \<open>immediate\<close> set, after any trace: \<open>timeout\<close> is unset exactly when no timer is alive;
  an invocation made while no timer is alive calls the callback at once with its own
  arguments; an invocation made while a timer is alive calls nothing; either way the only
  timer alive afterwards is the new one, due \<open>w\<close> later; the timers running never call the
  callback; and any two real calls are at least \<open>w\<close> apart.
\<close>

theorem debounce_leading_edge:
  "(timeout (run_debounce w True evs) = None \<longleftrightarrow> timers (run_debounce w True evs) = []) \<and>
   (timers (run_debounce w True evs) = [] \<longrightarrow>
      calls (executedFunction w True a (run_debounce w True evs)) =
        calls (run_debounce w True evs) @ [(now (run_debounce w True evs), a)]) \<and>
   (timers (run_debounce w True evs) \<noteq> [] \<longrightarrow>
      calls (executedFunction w True a (run_debounce w True evs)) =
        calls (run_debounce w True evs)) \<and>
   timers (executedFunction w True a (run_debounce w True evs)) =
     [(next_handle (run_debounce w True evs), now (run_debounce w True evs) + w, a)] \<and>
   calls (debounce_advance True d (run_debounce w True evs)) = calls (run_debounce w True evs) \<and>
   sorted_wrt (\<lambda>x y. fst x + w \<le> fst y) (calls (run_debounce w True evs))"
proof -
  let ?s = "run_debounce w True evs"
  have ot: "one_timer ?s" by (rule one_timer_run)
  then have iff: "timeout ?s = None \<longleftrightarrow> timers ?s = []"
    by (auto simp: one_timer_def)
  have "leading w ?s" by (rule leading_run)
  then have gaps: "sorted_wrt (\<lambda>x y. fst x + w \<le> fst y) (calls ?s)"
    by (simp add: leading_def)
  from executedFunction_timers [OF ot, of w True a] iff gaps advance_immediate_calls [OF ot, of d]
  show ?thesis by simp
qed

lemma leading_trace_run:
  "calls (run_debounce 100 True leading_trace) = [(0, 11), (160, 14)] \<and>
   timers (run_debounce 100 True leading_trace) \<noteq> []"
  by (simp add: leading_trace_def run_debounce_def executedFunction_def Let_def
      debounce_advance_def run_timer_def later_def debounce_start_def)

lemma expired_trace_run:
  "calls (run_debounce 100 True expired_trace) = [(0, 11)] \<and>
   timers (run_debounce 100 True expired_trace) = [] \<and>
   now (run_debounce 100 True expired_trace) = 100"
  by (simp add: expired_trace_def run_debounce_def executedFunction_def Let_def
      debounce_advance_def run_timer_def later_def debounce_start_def)

theorem debounce_leading_edge_witness:
  "timers (run_debounce 100 True leading_trace) \<noteq> [] \<and>
   calls (executedFunction 100 True 15 (run_debounce 100 True leading_trace)) =
     [(0, 11), (160, 14)] \<and>
   timers (run_debounce 100 True expired_trace) = [] \<and>
   calls (executedFunction 100 True 15 (run_debounce 100 True expired_trace)) =
     [(0, 11), (100, 15)]"
  using debounce_leading_edge [of 100 leading_trace 15 0]
    debounce_leading_edge [of 100 expired_trace 15 0] leading_trace_run expired_trace_run
  by simp

section \<open>Rate limiters: throttle: properties\<close>

lemma cooling_start: "cooling w throttle_start"
  by (simp add: cooling_def throttle_start_def)

lemma cooling_throttled: "cooling w s \<Longrightarrow> cooling w (throttled w th a s)"
  by (auto simp: cooling_def throttled_def Let_def)

lemma throttled_returning:
  "\<not> th a \<Longrightarrow>
   throttled w th a s =
     (if \<not> inThrottle s
      then s\<lparr>fired := fired s @ [(clock s, a)], inThrottle := True,
             resets := resets s @ [clock s + w]\<rparr>
      else s)"
  by (simp add: throttled_def Let_def)

lemma throttled_throwing:
  "th a \<Longrightarrow>
   throttled w th a s = (if \<not> inThrottle s then s\<lparr>fired := fired s @ [(clock s, a)]\<rparr> else s)"
  by (simp add: throttled_def Let_def)

lemma throttle_advance_idle:
  "resets s = [] \<Longrightarrow> throttle_advance d s = s\<lparr>clock := clock s + d\<rparr>"
  by (simp add: throttle_advance_def Let_def)

lemma throttle_advance_due:
  "resets s = [r] \<Longrightarrow> r \<le> clock s + d \<Longrightarrow>
   throttle_advance d s = s\<lparr>resets := [], clock := clock s + d, inThrottle := False\<rparr>"
  by (simp add: throttle_advance_def Let_def run_reset_def)

lemma throttle_advance_not_due:
  "resets s = [r] \<Longrightarrow> \<not> r \<le> clock s + d \<Longrightarrow>
   throttle_advance d s = s\<lparr>clock := clock s + d\<rparr>"
  by (simp add: throttle_advance_def Let_def)

lemma cooling_cases:
  assumes "cooling w s"
  obtains "\<not> inThrottle s" "resets s = []"
  | c where "inThrottle s" "resets s = [c + w]" "c \<le> clock s" "0 < w \<longrightarrow> clock s < c + w"
  using assms unfolding cooling_def by blast

lemma cooling_advance:
  assumes "cooling w s"
  shows "cooling w (throttle_advance d s)"
  using assms
proof (cases rule: cooling_cases)
  case 1
  then show ?thesis
    by (simp add: throttle_advance_idle cooling_def)
next
  case (2 c)
  show ?thesis
  proof (cases "c + w \<le> clock s + d")
    case True
    from throttle_advance_due [OF 2(2) True] show ?thesis
      by (simp add: cooling_def)
  next
    case False
    from throttle_advance_not_due [OF 2(2) False] 2 False show ?thesis
      by (auto simp: cooling_def)
  qed
qed

lemma cooling_step: "cooling w s \<Longrightarrow> cooling w (throttle_step w th ev s)"
  by (cases ev) (simp_all add: cooling_throttled cooling_advance)

lemma cooling_fold: "cooling w s \<Longrightarrow> cooling w (fold (throttle_step w th) evs s)"
  by (induction evs arbitrary: s) (simp_all add: cooling_step)

lemma cooling_run: "cooling w (run_throttle w th evs)"
  by (simp add: run_throttle_def cooling_fold cooling_start)

lemma invocations_times: "(t', a) \<in> set (invocations t es) \<Longrightarrow> t \<le> t'"
  by (induction t es rule: invocations.induct) auto

lemma throttle_calls_expired:
  "\<forall>x \<in> set invs. c + w \<le> fst x \<Longrightarrow> throttle_calls w (Some c) invs = throttle_calls w None invs"
  by (cases invs) auto

lemma throttle_fold:
  assumes "0 < w" and "cooling w s" and ret: "\<forall>a. \<not> th a"
  shows "fired (fold (throttle_step w th) evs s) =
           fired s @ throttle_calls w (cool_of w s) (invocations (clock s) evs)"
  using assms(2)
proof (induction evs arbitrary: s)
  case Nil
  show ?case by simp
next
  case (Cons e evs)
  from Cons.prems show ?case
  proof (cases rule: cooling_cases)
    case 1
    show ?thesis
    proof (cases e)
      case (Invoke a)
      have c: "cooling w (throttled w th a s)"
        using Cons.prems by (rule cooling_throttled)
      from Cons.IH [OF c] 1 Invoke ret show ?thesis
        by (simp add: throttled_returning cool_of_def)
    next
      case (Advance d)
      have c: "cooling w (throttle_advance d s)"
        using Cons.prems by (rule cooling_advance)
      from Cons.IH [OF c] 1 Advance show ?thesis
        by (simp add: throttle_advance_idle cool_of_def)
    qed
  next
    case (2 c)
    with assms(1) have lt: "clock s < c + w" by simp
    show ?thesis
    proof (cases e)
      case (Invoke a)
      from Cons.IH [OF Cons.prems] 2 lt Invoke show ?thesis
        by (simp add: throttled_def cool_of_def)
    next
      case (Advance d)
      have c': "cooling w (throttle_advance d s)"
        using Cons.prems by (rule cooling_advance)
      show ?thesis
      proof (cases "c + w \<le> clock s + d")
        case True
        have "\<forall>x \<in> set (invocations (clock s + d) evs). c + w \<le> fst x"
          using True invocations_times by fastforce
        then have "throttle_calls w (Some c) (invocations (clock s + d) evs) =
                   throttle_calls w None (invocations (clock s + d) evs)"
          by (rule throttle_calls_expired)
        with Cons.IH [OF c'] throttle_advance_due [OF 2(2) True] 2 Advance show ?thesis
          by (simp add: cool_of_def)
      next
        case False
        with Cons.IH [OF c'] throttle_advance_not_due [OF 2(2) False] 2 Advance show ?thesis
          by (simp add: cool_of_def)
      qed
    qed
  qed
qed

lemma throttle_calls_after:
  "\<forall>x \<in> set (throttle_calls w (Some c) invs). c + w \<le> fst x"
proof (induction invs arbitrary: c)
  case Nil
  show ?case by simp
next
  case (Cons x invs)
  obtain t a where x: "x = (t, a)" by (cases x)
  show ?case
  proof (cases "t < c + w")
    case True
    with Cons.IH [of c] show ?thesis by (simp add: x)
  next
    case False
    with Cons.IH [of t] show ?thesis by (auto simp: x)
  qed
qed

lemma throttle_calls_gaps:
  "sorted_wrt (\<lambda>x y. fst x + w \<le> fst y) (throttle_calls w cool invs)"
proof (induction invs arbitrary: cool)
  case Nil
  show ?case by simp
next
  case (Cons x invs)
  obtain t a where x: "x = (t, a)" by (cases x)
  from Cons.IH [of cool] Cons.IH [of "Some t"] throttle_calls_after [of w t invs]
  show ?case by (simp add: x)
qed

text \<open>
  For a callback that always returns and a window \<open>w > 0\<close>, after any trace: the real calls are
  exactly those of \<open>throttle_calls\<close> (the first invocation, and then every first invocation made
  \<open>w\<close> or more after the previous real call, each at its own time with its own arguments); any
  two real calls are at least \<open>w\<close> apart; an invocation during the cooldown changes nothing at
  all, so it is neither called nor queued; and an invocation outside the cooldown is called at
  once and starts a cooldown that ends \<open>w\<close> later.
\<close>

lemma throttle_returning_callback:
  assumes "0 < w" and "\<forall>a. \<not> th a"
  shows "fired (run_throttle w th evs) = throttle_calls w None (invocations 0 evs) \<and>
         sorted_wrt (\<lambda>x y. fst x + w \<le> fst y) (fired (run_throttle w th evs)) \<and>
         (inThrottle (run_throttle w th evs) \<longrightarrow>
            throttled w th a (run_throttle w th evs) = run_throttle w th evs) \<and>
         (\<not> inThrottle (run_throttle w th evs) \<longrightarrow>
            fired (throttled w th a (run_throttle w th evs)) =
              fired (run_throttle w th evs) @ [(clock (run_throttle w th evs), a)] \<and>
            inThrottle (throttled w th a (run_throttle w th evs)) \<and>
            resets (throttled w th a (run_throttle w th evs)) =
              [clock (run_throttle w th evs) + w])"
proof -
  have f: "fired (run_throttle w th evs) = throttle_calls w None (invocations 0 evs)"
    using throttle_fold [OF assms(1) cooling_start assms(2), of evs]
    by (simp add: run_throttle_def) (simp add: throttle_start_def cool_of_def)
  have "cooling w (run_throttle w th evs)" by (rule cooling_run)
  then have "\<not> inThrottle (run_throttle w th evs) \<longrightarrow> resets (run_throttle w th evs) = []"
    by (simp add: cooling_def)
  with f throttle_calls_gaps [of w None "invocations 0 evs"] assms(2) show ?thesis
    by (simp add: throttled_returning)
qed

lemma steady_example: "fired (run_throttle 100 returning steady) = [(0, 11), (120, 14)]"
  by (simp add: steady_def returning_def run_throttle_def throttled_def throttle_advance_def
      Let_def run_reset_def throttle_start_def)

text \<open>
  C3. The claim fails on the code for a callback that throws: \<open>func\<close> is called before
  \<open>inThrottle\<close> is set, so the exception leaves the function with no cooldown started. With a
  window of \<open>100\<close>, two invocations \<open>10\<close> apart both call such a callback, at times \<open>0\<close> and \<open>10\<close>,
  and the function is still outside the cooldown, with no timer set.
\<close>

theorem throttle_throwing_callback:
  "fired (run_throttle 100 throwing two_calls) = [(0, 11), (10, 12)] \<and>
   \<not> inThrottle (run_throttle 100 throwing two_calls) \<and>
   resets (run_throttle 100 throwing two_calls) = [] \<and>
   fired (run_throttle 100 returning two_calls) = [(0, 11)]"
  by (simp add: two_calls_def throwing_def returning_def run_throttle_def throttled_def
      throttle_advance_def Let_def run_reset_def throttle_start_def)

subsection \<open>Window zero\<close>





section \<open>Typewriter effect: properties\<close>

subsection \<open>Single runs\<close>

lemma typeWriter_typing:
  assumes "i < length subs" and "c < length (subs ! i)"
  shows "typeWriter subs True (typing_at i c) =
           Scheduled (take (Suc c) (subs ! i) @ cursor_span)
             (if Suc c = length (subs ! i) then 2000 else 100)
             (if Suc c = length (subs ! i) then deleting_at i (Suc c) else typing_at i (Suc c))"
proof -
  have "nat (int c + 1) = Suc c" by simp
  moreover have "(int c + 1 = int (length (subs ! i))) = (Suc c = length (subs ! i))" by linarith
  ultimately show ?thesis
    using assms
    by (simp add: typeWriter_def typing_at_def deleting_at_def substring0_def Let_def)
qed

lemma deleting_run:
  assumes "subtitleIndex s < length subs" and "isDeleting s" and "charIndex s = n + 1"
  shows "typeWriter subs True s =
     (if n = 0
      then Scheduled (take (nat n) (subs ! subtitleIndex s) @ cursor_span) 500
             (s\<lparr>charIndex := n, isDeleting := False,
                subtitleIndex := (subtitleIndex s + 1) mod length subs\<rparr>)
      else Scheduled (take (nat n) (subs ! subtitleIndex s) @ cursor_span) 50
             (s\<lparr>charIndex := n\<rparr>))"
  using assms by (simp add: typeWriter_def substring0_def Let_def)

lemma typeWriter_deleting:
  assumes "i < length subs"
  shows "typeWriter subs True (deleting_at i (Suc c)) =
           Scheduled (take c (subs ! i) @ cursor_span)
             (if c = 0 then 500 else 50)
             (if c = 0 then typing_at ((i + 1) mod length subs) 0 else deleting_at i c)"
proof -
  have "subtitleIndex (deleting_at i (Suc c)) < length subs"
    and "isDeleting (deleting_at i (Suc c))"
    and "charIndex (deleting_at i (Suc c)) = int c + 1"
    using assms by (simp_all add: deleting_at_def)
  from deleting_run [OF this] show ?thesis
    by (cases "c = 0") (simp_all add: deleting_at_def typing_at_def)
qed

lemma typeWriter_renders:
  assumes "typeWriter subs True s = Scheduled html delay s'"
  shows "html = take (nat (charIndex s')) (subs ! subtitleIndex s) @ cursor_span \<and>
         delay = (if isDeleting s' \<noteq> isDeleting s then (if isDeleting s' then 2000 else 500)
                  else if isDeleting s' then 50 else 100)"
  using assms
  by (auto simp: typeWriter_def substring0_def Let_def split: if_splits)

lemma in_text_typeWriter:
  assumes "\<forall>t \<in> set subs. t \<noteq> []" and "in_text subs s"
  shows "\<exists>html delay s'. typeWriter subs True s = Scheduled html delay s' \<and> in_text subs s'"
proof -
  from assms(2) have i: "subtitleIndex s < length subs" by (simp add: in_text_def)
  let ?j = "(subtitleIndex s + 1) mod length subs"
  from i have "subs \<noteq> []" by auto
  then have j: "?j < length subs" by simp
  then have "subs ! ?j \<in> set subs" by (rule nth_mem)
  with assms(1) have "0 < length (subs ! ?j)" by auto
  with assms(2) i j show ?thesis
    by (auto simp: typeWriter_def in_text_def Let_def simp del: mod_Suc_eq)
qed

subsection \<open>Chains of runs\<close>

lemma typeWriter_chain_add:
  "typeWriter_chain (a + b) subs s =
     (case typeWriter_chain a subs s of None \<Rightarrow> None | Some s' \<Rightarrow> typeWriter_chain b subs s')"
  by (induction a arbitrary: s) (auto split: outcome.splits)

lemma in_text_chain:
  assumes "\<forall>t \<in> set subs. t \<noteq> []"
  shows "in_text subs s \<Longrightarrow> \<exists>s'. typeWriter_chain n subs s = Some s' \<and> in_text subs s'"
proof (induction n arbitrary: s)
  case 0
  then show ?case by simp
next
  case (Suc n)
  from in_text_typeWriter [OF assms Suc.prems] obtain html delay s1
    where "typeWriter subs True s = Scheduled html delay s1" and "in_text subs s1" by blast
  with Suc.IH [of s1] show ?case by simp
qed

lemma chain_typing:
  assumes "i < length subs"
  shows "c + k < length (subs ! i) \<Longrightarrow>
         typeWriter_chain k subs (typing_at i c) = Some (typing_at i (c + k))"
proof (induction k arbitrary: c)
  case 0
  show ?case by simp
next
  case (Suc k)
  then have c: "c < length (subs ! i)" and n: "Suc c \<noteq> length (subs ! i)"
    and r: "Suc c + k < length (subs ! i)" by simp_all
  have "typeWriter subs True (typing_at i c) =
          Scheduled (take (Suc c) (subs ! i) @ cursor_span) 100 (typing_at i (Suc c))"
    using typeWriter_typing [OF assms c] n by simp
  then have "typeWriter_chain (Suc k) subs (typing_at i c) =
               typeWriter_chain k subs (typing_at i (Suc c))"
    by simp
  also have "\<dots> = Some (typing_at i (Suc c + k))"
    using r by (rule Suc.IH)
  finally show ?case by simp
qed

lemma chain_typed:
  assumes "i < length subs" and "0 < length (subs ! i)"
  shows "typeWriter_chain (length (subs ! i)) subs (typing_at i 0) =
           Some (deleting_at i (length (subs ! i)))"
proof -
  let ?L = "length (subs ! i)"
  have L: "?L = (?L - 1) + 1" using assms(2) by simp
  have "typeWriter_chain (?L - 1) subs (typing_at i 0) = Some (typing_at i (?L - 1))"
    using chain_typing [OF assms(1), of 0 "?L - 1"] assms(2) by simp
  moreover have "typeWriter_chain 1 subs (typing_at i (?L - 1)) = Some (deleting_at i ?L)"
    using typeWriter_typing [OF assms(1), of "?L - 1"] assms(2) by simp
  ultimately have "typeWriter_chain ((?L - 1) + 1) subs (typing_at i 0) = Some (deleting_at i ?L)"
    by (simp only: typeWriter_chain_add option.case)
  with L show ?thesis by simp
qed

lemma chain_deleting:
  assumes "i < length subs"
  shows "0 < c \<Longrightarrow> typeWriter_chain k subs (deleting_at i (c + k)) = Some (deleting_at i c)"
proof (induction k)
  case 0
  show ?case by simp
next
  case (Suc k)
  then have n: "c + k \<noteq> 0" by simp
  have "typeWriter subs True (deleting_at i (Suc (c + k))) =
          Scheduled (take (c + k) (subs ! i) @ cursor_span) 50 (deleting_at i (c + k))"
    using typeWriter_deleting [OF assms, of "c + k"] n by simp
  then have "typeWriter_chain (Suc k) subs (deleting_at i (c + Suc k)) =
               typeWriter_chain k subs (deleting_at i (c + k))"
    by simp
  also have "\<dots> = Some (deleting_at i c)"
    using Suc.prems by (rule Suc.IH)
  finally show ?case .
qed

lemma chain_deleted:
  assumes "i < length subs" and "0 < c"
  shows "typeWriter_chain c subs (deleting_at i c) = Some (typing_at ((i + 1) mod length subs) 0)"
proof -
  have c: "c = (c - 1) + 1" and c': "c = 1 + (c - 1)" using assms(2) by simp_all
  have "typeWriter_chain (c - 1) subs (deleting_at i (1 + (c - 1))) = Some (deleting_at i 1)"
    by (rule chain_deleting [OF assms(1)]) simp
  then have "typeWriter_chain (c - 1) subs (deleting_at i c) = Some (deleting_at i 1)"
    using c' by simp
  moreover have "typeWriter_chain 1 subs (deleting_at i 1) =
                   Some (typing_at ((i + 1) mod length subs) 0)"
    using typeWriter_deleting [OF assms(1), of 0] by simp
  ultimately have "typeWriter_chain ((c - 1) + 1) subs (deleting_at i c) =
                     Some (typing_at ((i + 1) mod length subs) 0)"
    by (simp only: typeWriter_chain_add option.case)
  with c show ?thesis by simp
qed

lemma chain_round:
  assumes "i < length subs" and "0 < length (subs ! i)"
  shows "typeWriter_chain (round_steps (subs ! i)) subs (typing_at i 0) =
           Some (typing_at ((i + 1) mod length subs) 0)"
proof -
  have "round_steps (subs ! i) = length (subs ! i) + length (subs ! i)"
    by (simp add: round_steps_def)
  then show ?thesis
    using chain_typed [OF assms] chain_deleted [OF assms]
    by (simp only: typeWriter_chain_add option.case)
qed

lemma chain_rounds:
  assumes "\<forall>t \<in> set subs. t \<noteq> []"
  shows "j \<le> length subs \<Longrightarrow>
         typeWriter_chain (cycle_steps (take j subs)) subs (typing_at 0 0) =
           Some (typing_at (j mod length subs) 0)"
proof (induction j)
  case 0
  show ?case by (simp add: cycle_steps_def)
next
  case (Suc j)
  then have j: "j < length subs" by simp
  then have "subs ! j \<in> set subs" by simp
  with assms have ne: "0 < length (subs ! j)" by auto
  have "cycle_steps (take (Suc j) subs) = cycle_steps (take j subs) + round_steps (subs ! j)"
    using j by (simp add: cycle_steps_def take_Suc_conv_app_nth)
  moreover have "typeWriter_chain (cycle_steps (take j subs)) subs (typing_at 0 0) =
                   Some (typing_at j 0)"
    using Suc.IH j by simp
  moreover have "typeWriter_chain (round_steps (subs ! j)) subs (typing_at j 0) =
                   Some (typing_at (Suc j mod length subs) 0)"
    using chain_round [OF j ne] by simp
  ultimately show ?case
    by (simp only: typeWriter_chain_add option.case)
qed

subsection \<open>Rounds\<close>

lemma typewriter_start_typing: "typewriter_start = typing_at 0 0"
  by (simp add: typewriter_start_def typing_at_def)

lemma in_text_start:
  assumes "subs \<noteq> []" and "\<forall>t \<in> set subs. t \<noteq> []"
  shows "in_text subs typewriter_start"
proof -
  from assms(1) have "subs ! 0 \<in> set subs" by simp
  with assms(2) have "subs ! 0 \<noteq> []" by blast
  with assms(1) show ?thesis
    by (simp add: in_text_def typewriter_start_def)
qed

lemma chain_deleting_from_full:
  assumes "i < length subs" and "k < length (subs ! i)"
  shows "typeWriter_chain (length (subs ! i) + k) subs (typing_at i 0) =
           Some (deleting_at i (length (subs ! i) - k))"
proof -
  let ?L = "length (subs ! i)"
  from assms(2) have L: "0 < ?L" by linarith
  from assms(2) have r: "0 < ?L - k" by linarith
  from assms(2) have e: "?L - k + k = ?L" by linarith
  have "typeWriter_chain k subs (deleting_at i (?L - k + k)) = Some (deleting_at i (?L - k))"
    using r by (rule chain_deleting [OF assms(1)])
  then have "typeWriter_chain k subs (deleting_at i ?L) = Some (deleting_at i (?L - k))"
    using e by simp
  with chain_typed [OF assms(1) L] show ?thesis
    by (simp only: typeWriter_chain_add option.case)
qed

text \<open>
  Rounds over any non-empty list of non-empty texts. A round over text \<open>i\<close> takes
  twice its length in runs: the first runs type it, so that after \<open>k\<close> of them the cursor is \<open>k\<close>,
  the next runs delete it, and the last run moves on to text \<open>i + 1\<close> modulo the number of
  texts, with the cursor back at \<open>0\<close>. After the rounds over all texts the variables are those
  of the start. At every moment the chain of runs goes on and the cursor lies between \<open>0\<close> and
  the length of the current text, and every run renders the prefix of the current text up to
  the new cursor, followed by the cursor markup.
\<close>

lemma rounds_of_nonempty_texts:
  assumes "subs \<noteq> []" and "\<forall>t \<in> set subs. t \<noteq> []" and "i < length subs"
  shows "(\<forall>k < length (subs ! i).
            typeWriter_chain k subs (typing_at i 0) = Some (typing_at i k) \<and>
            typeWriter_chain (length (subs ! i) + k) subs (typing_at i 0) =
              Some (deleting_at i (length (subs ! i) - k))) \<and>
         typeWriter_chain (round_steps (subs ! i)) subs (typing_at i 0) =
           Some (typing_at ((i + 1) mod length subs) 0) \<and>
         typeWriter_chain (cycle_steps subs) subs typewriter_start = Some typewriter_start \<and>
         (\<exists>s. typeWriter_chain n subs typewriter_start = Some s \<and>
              subtitleIndex s < length subs \<and> 0 \<le> charIndex s \<and>
              charIndex s \<le> int (length (subs ! subtitleIndex s))) \<and>
         (\<forall>s html delay s'. typeWriter subs True s = Scheduled html delay s' \<longrightarrow>
              html = take (nat (charIndex s')) (subs ! subtitleIndex s) @ cursor_span)"
proof -
  from assms(3) have "subs ! i \<in> set subs" by simp
  with assms(2) have ne: "0 < length (subs ! i)" by auto
  have a: "\<forall>k < length (subs ! i).
            typeWriter_chain k subs (typing_at i 0) = Some (typing_at i k) \<and>
            typeWriter_chain (length (subs ! i) + k) subs (typing_at i 0) =
              Some (deleting_at i (length (subs ! i) - k))"
    using chain_typing [OF assms(3), of 0] chain_deleting_from_full [OF assms(3)] by simp
  have b: "typeWriter_chain (round_steps (subs ! i)) subs (typing_at i 0) =
           Some (typing_at ((i + 1) mod length subs) 0)"
    using assms(3) ne by (rule chain_round)
  have c: "typeWriter_chain (cycle_steps subs) subs typewriter_start = Some typewriter_start"
    using chain_rounds [OF assms(2), of "length subs"]
    by (simp add: typewriter_start_typing)
  obtain s where "typeWriter_chain n subs typewriter_start = Some s" and "in_text subs s"
    using in_text_chain [OF assms(2) in_text_start [OF assms(1) assms(2)], of n] by blast
  then have d: "\<exists>s. typeWriter_chain n subs typewriter_start = Some s \<and>
              subtitleIndex s < length subs \<and> 0 \<le> charIndex s \<and>
              charIndex s \<le> int (length (subs ! subtitleIndex s))"
    by (auto simp: in_text_def)
  have e: "\<forall>s html delay s'. typeWriter subs True s = Scheduled html delay s' \<longrightarrow>
              html = take (nat (charIndex s')) (subs ! subtitleIndex s) @ cursor_span"
    using typeWriter_renders by blast
  from a b c d e show ?thesis by blast
qed

lemma subtitles_texts: "subtitles \<noteq> [] \<and> (\<forall>t \<in> set subtitles. t \<noteq> []) \<and> length subtitles = 4"
  by (simp add: subtitles_def)

text \<open>
  C5. \<open>typeWriter\<close> closes over the list \<open>subtitles\<close> of the source, which has \<open>N = 4\<close> texts, none
  of them empty. Started with index \<open>0\<close>, cursor \<open>0\<close> and typing, and for every text \<open>i\<close> of the
  list: the first runs of a round type the text, so that after \<open>k\<close> of them the cursor is \<open>k\<close>;
  the next runs delete it; the last run of the round leaves the cursor at \<open>0\<close> and the index at
  \<open>i + 1\<close> modulo \<open>N\<close>; after the rounds over all \<open>N\<close> texts the variables are those of the start;
  after any number of runs the chain goes on and the cursor lies between \<open>0\<close> and the length
  of the current text; and every run renders the prefix of the current text up to the new
  cursor, followed by the cursor markup.
\<close>

theorem typewriter_rounds:
  assumes "i < length subtitles"
  shows "(\<forall>k < length (subtitles ! i).
            typeWriter_chain k subtitles (typing_at i 0) = Some (typing_at i k) \<and>
            typeWriter_chain (length (subtitles ! i) + k) subtitles (typing_at i 0) =
              Some (deleting_at i (length (subtitles ! i) - k))) \<and>
         typeWriter_chain (round_steps (subtitles ! i)) subtitles (typing_at i 0) =
           Some (typing_at ((i + 1) mod length subtitles) 0) \<and>
         typeWriter_chain (cycle_steps subtitles) subtitles typewriter_start =
           Some typewriter_start \<and>
         (\<exists>s. typeWriter_chain n subtitles typewriter_start = Some s \<and>
              subtitleIndex s < length subtitles \<and> 0 \<le> charIndex s \<and>
              charIndex s \<le> int (length (subtitles ! subtitleIndex s))) \<and>
         (\<forall>s html delay s'. typeWriter subtitles True s = Scheduled html delay s' \<longrightarrow>
              html = take (nat (charIndex s')) (subtitles ! subtitleIndex s) @ cursor_span)"
proof -
  have "subtitles \<noteq> []" and "\<forall>t \<in> set subtitles. t \<noteq> []"
    using subtitles_texts by blast+
  then show ?thesis
    using assms by (rule rounds_of_nonempty_texts)
qed

lemma first_subtitle: "length (subtitles ! 0) = 38"
  by (simp add: subtitles_def)

theorem typewriter_rounds_witness:
  "typeWriter_chain 5 subtitles (typing_at 0 0) = Some (typing_at 0 5) \<and>
   typeWriter_chain (38 + 5) subtitles (typing_at 0 0) = Some (deleting_at 0 33) \<and>
   typeWriter_chain (round_steps (subtitles ! 0)) subtitles (typing_at 0 0) = Some (typing_at 1 0) \<and>
   typeWriter_chain (round_steps (subtitles ! 3)) subtitles (typing_at 3 0) = Some (typing_at 0 0) \<and>
   typeWriter_chain (cycle_steps subtitles) subtitles typewriter_start = Some typewriter_start"
proof -
  from typewriter_rounds [of 0 0] subtitles_texts first_subtitle
  have a: "\<forall>k<38. typeWriter_chain k subtitles (typing_at 0 0) = Some (typing_at 0 k) \<and>
          typeWriter_chain (38 + k) subtitles (typing_at 0 0) = Some (deleting_at 0 (38 - k))"
    and b: "typeWriter_chain (round_steps (subtitles ! 0)) subtitles (typing_at 0 0) =
           Some (typing_at 1 0)"
    and c: "typeWriter_chain (cycle_steps subtitles) subtitles typewriter_start = Some typewriter_start"
    by simp_all
  from a have "5 < (38::nat) \<longrightarrow>
      typeWriter_chain 5 subtitles (typing_at 0 0) = Some (typing_at 0 5) \<and>
      typeWriter_chain (38 + 5) subtitles (typing_at 0 0) = Some (deleting_at 0 (38 - 5))"
    by (rule spec)
  then have k: "typeWriter_chain 5 subtitles (typing_at 0 0) = Some (typing_at 0 5)"
    "typeWriter_chain (38 + 5) subtitles (typing_at 0 0) = Some (deleting_at 0 33)"
    by simp_all
  from typewriter_rounds [of 3 0] subtitles_texts
  have d: "typeWriter_chain (round_steps (subtitles ! 3)) subtitles (typing_at 3 0) =
          Some (typing_at 0 0)"
    by simp
  from k b d c show ?thesis by (intro conjI)
qed

text \<open>
  The texts \<open>ab\<close> and \<open>cd\<close> of the specification's example: typed after two runs, deleted and
  moved on to the second text after four.
\<close>

lemma two_texts_example:
  "typeWriter_chain 2 [''ab'', ''cd''] typewriter_start = Some (deleting_at 0 2) \<and>
   typeWriter_chain 4 [''ab'', ''cd''] typewriter_start = Some (typing_at 1 0) \<and>
   typeWriter [''ab'', ''cd''] True (typing_at 0 1) =
     Scheduled (''ab'' @ cursor_span) 2000 (deleting_at 0 2)"
  by code_simp

text \<open>
  Why the texts must not be empty for the rounds above: on an empty text, which the source
  does not list, the cursor would pass the length at the first run and typing would not end.
\<close>

lemma empty_text_never_typed:
  "typeWriter_chain n [[]] (typing_at 0 c) = Some (typing_at 0 (c + n))"
proof (induction n arbitrary: c)
  case 0
  show ?case by simp
next
  case (Suc n)
  have "typeWriter [[]] True (typing_at 0 c) = Scheduled cursor_span 100 (typing_at 0 (Suc c))"
    by (simp add: typeWriter_def typing_at_def substring0_def Let_def)
  with Suc [of "Suc c"] show ?case by simp
qed

section \<open>ReniLandingPage: the application object: properties\<close>

subsection \<open>Construction up to the first fault\<close>

lemma construct_modules_clean:
  "\<forall>m \<in> set ms. \<not> throws m \<Longrightarrow>
   construct_modules throws ms s = (None, fold construct ms s)"
  by (induction ms arbitrary: s) simp_all

lemma construct_modules_fault:
  "\<forall>x \<in> set pre. \<not> throws x \<Longrightarrow> throws m \<Longrightarrow>
   construct_modules throws (pre @ m # post) s = (Some m, fold construct pre s)"
  by (induction pre arbitrary: s) simp_all

lemma fold_construct:
  "map fst (constructed (fold construct ms s)) = map fst (constructed s) @ ms \<and>
   isInitialized (fold construct ms s) = isInitialized s \<and>
   console (fold construct ms s) = console s \<and>
   next_instance s \<le> next_instance (fold construct ms s) \<and>
   dom (modules (fold construct ms s)) = dom (modules s) \<union> set ms \<and>
   (\<forall>x. x \<notin> set ms \<longrightarrow> modules (fold construct ms s) x = modules s x) \<and>
   (\<forall>x \<in> set ms. \<exists>k. modules (fold construct ms s) x = Some k \<and> next_instance s \<le> k)"
proof (induction ms arbitrary: s)
  case Nil
  show ?case by simp
next
  case (Cons m ms)
  have c: "map fst (constructed (construct m s)) = map fst (constructed s) @ [m]"
    "isInitialized (construct m s) = isInitialized s" "console (construct m s) = console s"
    "next_instance (construct m s) = Suc (next_instance s)"
    "modules (construct m s) = (modules s)(m \<mapsto> next_instance s)"
    by (simp_all add: construct_def)
  note ih = Cons.IH [of "construct m s"]
  have "\<forall>x \<in> set (m # ms). \<exists>k. modules (fold construct (m # ms) s) x = Some k \<and> next_instance s \<le> k"
  proof
    fix x assume "x \<in> set (m # ms)"
    show "\<exists>k. modules (fold construct (m # ms) s) x = Some k \<and> next_instance s \<le> k"
    proof (cases "x \<in> set ms")
      case True
      with ih obtain k where "modules (fold construct ms (construct m s)) x = Some k"
        and "next_instance (construct m s) \<le> k" by blast
      then show ?thesis using c by simp
    next
      case False
      with \<open>x \<in> set (m # ms)\<close> have "x = m" by simp
      with False ih c show ?thesis by simp
    qed
  qed
  moreover have "dom (modules (fold construct (m # ms) s)) = dom (modules s) \<union> set (m # ms)"
    using ih c by auto
  moreover have "\<forall>x. x \<notin> set (m # ms) \<longrightarrow> modules (fold construct (m # ms) s) x = modules s x"
    using ih c by simp
  moreover have "next_instance s \<le> next_instance (fold construct (m # ms) s)"
    using ih c by simp
  ultimately show ?case
    using ih c by simp
qed

lemma all_modules: "set module_order = UNIV"
proof -
  have "m \<in> set module_order" for m
    by (cases m) (simp_all add: module_order_def)
  then show ?thesis by blast
qed

text \<open>
  C8, as the code has it. \<open>init\<close> writes \<open>isInitialized\<close> and never reads it: whatever the flag
  holds, a call in which no constructor throws constructs the six modules again, in their
  order, stores a fresh instance under every name, and sets the flag.
\<close>

theorem init_constructs_every_time:
  assumes "\<forall>m. \<not> throws m"
  shows "map fst (constructed (ReniLandingPage_init throws s)) =
           map fst (constructed s) @ module_order \<and>
         (\<forall>m. \<exists>k. getModule m (ReniLandingPage_init throws s) = Some k \<and> next_instance s \<le> k) \<and>
         isInitialized (ReniLandingPage_init throws s) \<and>
         ReniLandingPage_init throws (s\<lparr>isInitialized := b\<rparr>) = ReniLandingPage_init throws s"
proof -
  have cm: "construct_modules throws module_order s' = (None, fold construct module_order s')" for s'
    using assms by (simp add: construct_modules_clean)
  note fc = fold_construct [of module_order s]
  have step: "construct x (s'\<lparr>isInitialized := b\<rparr>) = (construct x s')\<lparr>isInitialized := b\<rparr>"
    for x s'
    by (simp add: construct_def)
  have flag: "fold construct ms (s'\<lparr>isInitialized := b\<rparr>) = (fold construct ms s')\<lparr>isInitialized := b\<rparr>"
    for ms s'
    by (induction ms arbitrary: s') (simp_all add: step)
  have "\<forall>m. \<exists>k. getModule m (ReniLandingPage_init throws s) = Some k \<and> next_instance s \<le> k"
    using fc all_modules by (simp add: ReniLandingPage_init_def cm getModule_def)
  moreover have "ReniLandingPage_init throws (s\<lparr>isInitialized := b\<rparr>) = ReniLandingPage_init throws s"
    by (simp add: ReniLandingPage_init_def cm flag)
  ultimately show ?thesis
    using fc by (simp add: ReniLandingPage_init_def cm)
qed

theorem init_constructs_every_time_witness:
  "isInitialized (ReniLandingPage_init no_fault ReniLandingPage_new) \<and>
   map fst (constructed (ReniLandingPage_init no_fault
      (ReniLandingPage_init no_fault ReniLandingPage_new))) = module_order @ module_order"
  using init_constructs_every_time [of no_fault ReniLandingPage_new False]
    init_constructs_every_time [of no_fault "ReniLandingPage_init no_fault ReniLandingPage_new" False]
  by (simp add: no_fault_def) (simp add: ReniLandingPage_new_def)

text \<open>
  The claim as the specification states it fails: after a first \<open>init\<close> has set the flag, a
  second \<open>init\<close> runs the six constructors once more and replaces the instance stored under a
  name.
\<close>

theorem second_init_not_a_no_op:
  "isInitialized (ReniLandingPage_init no_fault ReniLandingPage_new) \<and>
   length (constructed (ReniLandingPage_init no_fault ReniLandingPage_new)) = 6 \<and>
   length (constructed
      (ReniLandingPage_init no_fault (ReniLandingPage_init no_fault ReniLandingPage_new))) = 12 \<and>
   getModule errorManager (ReniLandingPage_init no_fault ReniLandingPage_new) = Some 0 \<and>
   getModule errorManager
      (ReniLandingPage_init no_fault (ReniLandingPage_init no_fault ReniLandingPage_new)) = Some 6"
  by (simp add: ReniLandingPage_init_def module_order_def no_fault_def construct_def
      ReniLandingPage_new_def getModule_def)

text \<open>
  C9, as the code has it. One \<open>try\<close> block holds all six constructions. When the constructor of
  \<open>m\<close> is the first to throw, the fault is caught and logged, the modules before \<open>m\<close> have been
  constructed and stay registered, and neither \<open>m\<close> nor any module after it is constructed
  or registered: their entries and the flag \<open>isInitialized\<close> are as they were before the call.
\<close>

theorem init_stops_at_first_fault:
  assumes "module_order = pre @ m # post" and "\<forall>x \<in> set pre. \<not> throws x" and "throws m"
  shows "map fst (constructed (ReniLandingPage_init throws s)) = map fst (constructed s) @ pre \<and>
         (\<forall>x \<in> set pre. \<exists>k. getModule x (ReniLandingPage_init throws s) = Some k) \<and>
         (\<forall>x \<in> set (m # post). getModule x (ReniLandingPage_init throws s) = getModule x s) \<and>
         isInitialized (ReniLandingPage_init throws s) = isInitialized s \<and>
         console (ReniLandingPage_init throws s) = console s @ [FailedToInitialize m]"
proof -
  have cm: "construct_modules throws module_order s = (Some m, fold construct pre s)"
    unfolding assms(1) using assms(2) assms(3) by (rule construct_modules_fault)
  have "distinct module_order" by (simp add: module_order_def)
  then have "distinct (pre @ m # post)" by (simp only: assms(1))
  then have d: "\<forall>x \<in> set (m # post). x \<notin> set pre" by auto
  note fc = fold_construct [of pre s]
  have "\<forall>x \<in> set pre. \<exists>k. getModule x (ReniLandingPage_init throws s) = Some k"
    using fc by (auto simp: ReniLandingPage_init_def cm getModule_def)
  moreover have "\<forall>x \<in> set (m # post). getModule x (ReniLandingPage_init throws s) = getModule x s"
    using fc d by (simp add: ReniLandingPage_init_def cm getModule_def)
  ultimately show ?thesis
    using fc by (simp add: ReniLandingPage_init_def cm)
qed

theorem init_stops_at_first_fault_witness:
  "map fst (constructed (ReniLandingPage_init monitor_fault ReniLandingPage_new)) = [errorManager] \<and>
   getModule contactManager (ReniLandingPage_init monitor_fault ReniLandingPage_new) = None \<and>
   \<not> isInitialized (ReniLandingPage_init monitor_fault ReniLandingPage_new) \<and>
   console (ReniLandingPage_init monitor_fault ReniLandingPage_new) =
     [FailedToInitialize performanceMonitor]"
  using init_stops_at_first_fault [of "[errorManager]" performanceMonitor
      "[smoothScrollManager, animationManager, contactManager, accessibilityManager]"
      monitor_fault ReniLandingPage_new]
  by (simp add: module_order_def monitor_fault_def) (simp add: ReniLandingPage_new_def getModule_def)

text \<open>
  The claim as the specification states it fails: when the constructor of \<open>PerformanceMonitor\<close>
  throws, the four modules after it are not constructed and not registered.
\<close>

theorem fault_aborts_later_modules:
  "map fst (constructed (ReniLandingPage_init monitor_fault ReniLandingPage_new)) = [errorManager] \<and>
   getModule smoothScrollManager (ReniLandingPage_init monitor_fault ReniLandingPage_new) = None \<and>
   getModule animationManager (ReniLandingPage_init monitor_fault ReniLandingPage_new) = None \<and>
   getModule contactManager (ReniLandingPage_init monitor_fault ReniLandingPage_new) = None \<and>
   getModule accessibilityManager (ReniLandingPage_init monitor_fault ReniLandingPage_new) = None"
  by (simp add: ReniLandingPage_init_def module_order_def monitor_fault_def construct_def
      ReniLandingPage_new_def getModule_def)

section \<open>Pointer effects: properties\<close>

subsection \<open>Reduced motion\<close>

lemma btn_mouseenter_reduced: "prefers_reduced_motion ev \<Longrightarrow> btn_mouseenter ev tr = tr"
  by (simp add: btn_mouseenter_def)

lemma pointer_effects_any_env:
  "hero_button_mousemove ops ev e rect tr = hero_button_mousemove ops ev' e rect tr \<and>
   document_mousemove ops ev e w h hc = document_mousemove ops ev' e w h hc \<and>
   service_item_mousemove ops ev e rect tr = service_item_mousemove ops ev' e rect tr"
  by (simp add: hero_button_mousemove_def document_mousemove_def service_item_mousemove_def)

text \<open>
  C7. The claim fails on the code. With reduced motion requested, for every arithmetic of the
  numbers, every pointer position and every rectangle, a pointer move over a hero button, over
  the document and over a service item computes a transform and writes it: what the surface
  then holds is a template string with the computed numbers, which is neither the unset value
  nor the value the \<open>mouseleave\<close> handler restores. The hover handler of \<open>ContactManager\<close>, under
  the same preference, leaves the transform as it was.
\<close>

theorem pointer_effects_under_reduced_motion:
  "prefers_reduced_motion reduced_env \<and>
   (\<exists>x y. hero_button_mousemove ops reduced_env e rect Unset = TranslateScale x y) \<and>
   hero_button_mousemove ops reduced_env e rect tr \<noteq> Unset \<and>
   hero_button_mousemove ops reduced_env e rect tr \<noteq> hero_button_mouseleave tr' \<and>
   (\<exists>x y. document_mousemove ops reduced_env e w h (Some Unset) = Some (Translate x y)) \<and>
   document_mousemove ops reduced_env e w h (Some tr) \<noteq> Some Unset \<and>
   (\<exists>x y. service_item_mousemove ops reduced_env e rect Unset = Tilt x y) \<and>
   service_item_mousemove ops reduced_env e rect tr \<noteq> Unset \<and>
   service_item_mousemove ops reduced_env e rect tr \<noteq> service_item_mouseleave tr' \<and>
   btn_mouseenter reduced_env tr = tr"
  by (simp add: reduced_env_def hero_button_mousemove_def document_mousemove_def
      service_item_mousemove_def btn_mouseenter_def hero_button_mouseleave_def
      service_item_mouseleave_def Let_def)

end
